theory Spec2Isabelle
  imports Complex_Main "HOL-Library.Multiset"
begin

section \<open>Data model\<close>

text \<open>
  The source's \<^verbatim>\<open>type User = { id; name; excludedUserIds; ready }\<close>. The field
  \<^verbatim>\<open>id\<close> is written \<open>id_user\<close>, since \<open>id\<close> is the identity function of HOL.
\<close>

record User =
  id_user :: string
  name :: string
  excludedUserIds :: "string list"
  ready :: bool

text \<open>
  The two exceptions of \<^verbatim>\<open>generateAssignments\<close>:
  \<^verbatim>\<open>Error("Not enough users")\<close> and
  \<^verbatim>\<open>Error("Impossible to generate valid assignments")\<close>.
\<close>

datatype error = NotEnoughUsers | ImpossibleToGenerate

text \<open>
  Reading an array at an index: JavaScript yields \<^verbatim>\<open>undefined\<close> out of range, here
  \<open>None\<close>. A value of type \<^verbatim>\<open>string | undefined\<close> is a \<open>string option\<close>.
\<close>

definition js_index :: "'a list \<Rightarrow> nat \<Rightarrow> 'a option" where
  "js_index xs i = (if i < length xs then Some (xs ! i) else None)"

section \<open>The randomness source and the sort of the runtime\<close>

text \<open>
  \<^verbatim>\<open>Math.random()\<close> reads and advances a global generator. The values it will return
  are a sequence \<open>rs\<close>; the state is the number of calls made so far.
\<close>

type_synonym random_source = "nat \<Rightarrow> real"

definition math_random :: "random_source \<Rightarrow> nat \<Rightarrow> real \<times> nat" where
  "math_random rs s = (rs s, Suc s)"

text \<open>
  The comparator of the source, \<^verbatim>\<open>() => Math.random() - 0.5\<close>: it takes the two
  elements the sort hands it and ignores them.
\<close>

definition random_comparator :: "random_source \<Rightarrow> 'a \<Rightarrow> 'a \<Rightarrow> nat \<Rightarrow> real \<times> nat" where
  "random_comparator rs a b s = (case math_random rs s of (r, s') \<Rightarrow> (r - 1 / 2, s'))"

text \<open>
  \<^verbatim>\<open>Array.prototype.sort\<close> belongs to the JavaScript runtime, not to this repository.
  It is a parameter: a sorting procedure is what it does with the array, step by step.
  Either it is done and returns an array, or it calls the comparator on two elements and
  goes on according to the number that comes back. Every deterministic sort that
  terminates and sees the comparator only through calls is such a procedure.
\<close>

datatype 'a sorter = Return "'a list" | Compare 'a 'a "real \<Rightarrow> 'a sorter"

primrec sort_with :: "('a \<Rightarrow> 'a \<Rightarrow> 'st \<Rightarrow> real \<times> 'st) \<Rightarrow> 'a sorter \<Rightarrow> 'st \<Rightarrow> 'a list \<times> 'st" where
  "sort_with cmp (Return ys) = (\<lambda>s. (ys, s))"
| "sort_with cmp (Compare a b k) = (\<lambda>s. case cmp a b s of (v, s') \<Rightarrow> sort_with cmp (k v) s')"

text \<open>
  \<^verbatim>\<open>function shuffle<T>(array) { return [...array].sort(() => Math.random() - 0.5); }\<close>
  The copy \<^verbatim>\<open>[...array]\<close> is the list itself; \<open>engine\<close> is the runtime's sort.
\<close>

definition shuffle :: "('a list \<Rightarrow> 'a sorter) \<Rightarrow> random_source \<Rightarrow> 'a list \<Rightarrow> nat \<Rightarrow> 'a list \<times> nat" where
  "shuffle engine rs array s = sort_with (random_comparator rs) (engine array) s"

section \<open>generateAssignments\<close>

text \<open>
  The validation loop \<^verbatim>\<open>for (let i = 0; i < users.length; i++)\<close> of one attempt, from
  index \<open>i\<close> on. It returns the final value of \<^verbatim>\<open>valid\<close>. \<^verbatim>\<open>!assignedId\<close> holds of
  \<^verbatim>\<open>undefined\<close> and of the empty string.
\<close>

function validate_from :: "User list \<Rightarrow> string list \<Rightarrow> nat \<Rightarrow> bool" where
  "validate_from users shuffledIds i =
     (if i < length users then
        (let user = users ! i; assignedId = js_index shuffledIds i in
         if (case assignedId of None \<Rightarrow> True | Some a \<Rightarrow> a = [])
            \<or> assignedId = Some (id_user user)
            \<or> (case assignedId of None \<Rightarrow> False | Some a \<Rightarrow> a \<in> set (excludedUserIds user))
         then False
         else validate_from users shuffledIds (i + 1))
      else True)"
  by pat_completeness auto
termination
  by (relation "measure (\<lambda>(users, shuffledIds, i). length users - i)") auto

declare validate_from.simps [simp del]

text \<open>
  The retry loop \<^verbatim>\<open>while (attempts < 1000)\<close>. The state is the variables
  \<^verbatim>\<open>attempts\<close> and \<^verbatim>\<open>shuffledIds\<close> and the state of the generator; the loop
  leaves through \<^verbatim>\<open>if (valid) break\<close> or when the condition fails.
\<close>

function attempt_loop ::
  "(string list \<Rightarrow> string sorter) \<Rightarrow> random_source \<Rightarrow> User list \<Rightarrow> string list
     \<Rightarrow> nat \<Rightarrow> string list \<Rightarrow> nat \<Rightarrow> nat \<times> string list \<times> nat" where
  "attempt_loop engine rs users userIds attempts shuffledIds s =
     (if attempts < 1000 then
        (let attempts' = attempts + 1 in
         case shuffle engine rs userIds s of (shuffledIds', s') \<Rightarrow>
           if validate_from users shuffledIds' 0 then (attempts', shuffledIds', s')
           else attempt_loop engine rs users userIds attempts' shuffledIds' s')
      else (attempts, shuffledIds, s))"
  by pat_completeness auto
termination
  by (relation "measure (\<lambda>(engine, rs, users, userIds, attempts, shuffledIds, s). 1000 - attempts)") auto

declare attempt_loop.simps [simp del]

text \<open>
  The loop that fills the result, \<^verbatim>\<open>result.set(user.id, assignedId)\<close> for each index.
  The \<^verbatim>\<open>Map\<close> is a partial function; what it stores is \<^verbatim>\<open>shuffledIds[i]\<close>, which is
  \<^verbatim>\<open>undefined\<close> out of range (the \<^verbatim>\<open>!\<close> of the source is a type assertion only).
\<close>

function fill_result ::
  "User list \<Rightarrow> string list \<Rightarrow> nat \<Rightarrow> (string \<rightharpoonup> string option) \<Rightarrow> (string \<rightharpoonup> string option)" where
  "fill_result users shuffledIds i result =
     (if i < length users then
        (let user = users ! i; assignedId = js_index shuffledIds i in
         fill_result users shuffledIds (i + 1) (result(id_user user \<mapsto> assignedId)))
      else result)"
  by pat_completeness auto
termination
  by (relation "measure (\<lambda>(users, shuffledIds, i, result). length users - i)") auto

declare fill_result.simps [simp del]

text \<open>
  The function itself. It returns the \<^verbatim>\<open>Map\<close> or the error thrown, and the state of
  the generator it leaves behind.
\<close>

definition generateAssignments ::
  "(string list \<Rightarrow> string sorter) \<Rightarrow> random_source \<Rightarrow> User list \<Rightarrow> nat
     \<Rightarrow> (error + (string \<rightharpoonup> string option)) \<times> nat" where
  "generateAssignments engine rs users s =
     (if length users < 2 then (Inl NotEnoughUsers, s)
      else
        (let userIds = map id_user users in
         case attempt_loop engine rs users userIds 0 [] s of (attempts, shuffledIds, s') \<Rightarrow>
           if attempts \<ge> 1000 then (Inl ImpossibleToGenerate, s')
           else (Inr (fill_result users shuffledIds 0 Map.empty), s')))"

section \<open>Notions the properties are stated with\<close>

text \<open>
  The arrays a sorting procedure can return, over all the numbers the comparator may
  answer. A sort of the runtime is \<open>permuting\<close> when each of them is a rearrangement of
  the input: nothing is lost, added or duplicated, however inconsistent the comparator.
\<close>

primrec outcomes :: "'a sorter \<Rightarrow> 'a list set" where
  "outcomes (Return ys) = {ys}"
| "outcomes (Compare a b k) = (\<Union>v. outcomes (k v))"

definition permuting :: "('a list \<Rightarrow> 'a sorter) \<Rightarrow> bool" where
  "permuting engine = (\<forall>xs. \<forall>ys \<in> outcomes (engine xs). mset ys = mset xs)"

text \<open>
  The shuffle of attempt \<open>k + 1\<close> of a call that starts in generator state \<open>s\<close>, when
  the attempts before it have all run: each shuffle starts where the previous one left
  the generator.
\<close>

fun nth_shuffle :: "('a list \<Rightarrow> 'a sorter) \<Rightarrow> random_source \<Rightarrow> 'a list \<Rightarrow> nat \<Rightarrow> nat \<Rightarrow> 'a list \<times> nat" where
  "nth_shuffle engine rs array s 0 = shuffle engine rs array s"
| "nth_shuffle engine rs array s (Suc k) = nth_shuffle engine rs array (snd (shuffle engine rs array s)) k"












text \<open>
  The spec's notion of a uniformly random permutation needs probabilities. Each call of
  \<^verbatim>\<open>Math.random()\<close> returns one of the \<open>2 ^ bits\<close> values \<open>j / 2 ^ bits\<close> of \<open>[0, 1)\<close>,
  each equally likely and independent of the calls before. \<open>outcome_probability\<close> is
  then the probability that a sorting procedure run with the comparator of the source
  returns \<open>zs\<close>: at a comparison, the average over the values \<open>r - 1 / 2\<close> the comparator
  can answer, as in \<open>sort_with\<close> and \<open>random_comparator\<close>.
\<close>

primrec outcome_probability :: "nat \<Rightarrow> 'a sorter \<Rightarrow> 'a list \<Rightarrow> real" where
  "outcome_probability bits (Return ys) zs = (if ys = zs then 1 else 0)"
| "outcome_probability bits (Compare a b k) zs =
     (\<Sum>j < 2 ^ bits. outcome_probability bits (k (real j / 2 ^ bits - 1 / 2)) zs) / 2 ^ bits"

definition shuffle_probability :: "nat \<Rightarrow> ('a list \<Rightarrow> 'a sorter) \<Rightarrow> 'a list \<Rightarrow> 'a list \<Rightarrow> real" where
  "shuffle_probability bits engine array zs = outcome_probability bits (engine array) zs"

section \<open>A sort to run the code with\<close>

text \<open>
  One sorting procedure, to evaluate the code on concrete inputs: insertion sort. The tail
  is sorted first; the head is then compared with the elements of the sorted tail from the
  left, and goes in front of the first one for which the comparator answers a negative
  number. The general results below hold for every permuting sort, not only this one.
\<close>

fun insert_step :: "'a \<Rightarrow> 'a list \<Rightarrow> ('a list \<Rightarrow> 'a sorter) \<Rightarrow> 'a sorter" where
  "insert_step x [] k = k [x]"
| "insert_step x (y # ys) k =
     Compare x y (\<lambda>v. if v < 0 then k (x # y # ys) else insert_step x ys (\<lambda>zs. k (y # zs)))"

fun insertion_steps :: "'a list \<Rightarrow> ('a list \<Rightarrow> 'a sorter) \<Rightarrow> 'a sorter" where
  "insertion_steps [] k = k []"
| "insertion_steps (x # xs) k = insertion_steps xs (\<lambda>ys. insert_step x ys k)"

definition insertion_sort :: "'a list \<Rightarrow> 'a sorter" where
  "insertion_sort xs = insertion_steps xs Return"

text \<open>Inputs for the concrete runs: participants and sequences of random values.\<close>

abbreviation duo :: "User list" where
  "duo \<equiv> [\<lparr>id_user = ''A'', name = ''Ann'', excludedUserIds = [''A''], ready = True\<rparr>,
            \<lparr>id_user = ''B'', name = ''Bob'', excludedUserIds = [''B''], ready = True\<rparr>]"

abbreviation trio :: "User list" where
  "trio \<equiv> [\<lparr>id_user = ''A'', name = ''Ann'', excludedUserIds = [''A''], ready = True\<rparr>,
            \<lparr>id_user = ''B'', name = ''Bob'', excludedUserIds = [''B''], ready = True\<rparr>,
            \<lparr>id_user = ''C'', name = ''Cy'', excludedUserIds = [''C''], ready = True\<rparr>]"

abbreviation blank_trio :: "User list" where
  "blank_trio \<equiv> [\<lparr>id_user = '''', name = ''Ann'', excludedUserIds = [''''], ready = True\<rparr>,
            \<lparr>id_user = ''B'', name = ''Bob'', excludedUserIds = [''B''], ready = True\<rparr>,
            \<lparr>id_user = ''C'', name = ''Cy'', excludedUserIds = [''C''], ready = True\<rparr>]"

abbreviation renamed_trio :: "User list" where
  "renamed_trio \<equiv> [\<lparr>id_user = ''A'', name = ''Alice'', excludedUserIds = [''A''], ready = False\<rparr>,
            \<lparr>id_user = ''B'', name = ''Boris'', excludedUserIds = [''B''], ready = True\<rparr>,
            \<lparr>id_user = ''C'', name = ''Cleo'', excludedUserIds = [''C''], ready = False\<rparr>]"

abbreviation ann_excludes_bob :: User where
  "ann_excludes_bob \<equiv> \<lparr>id_user = ''A'', name = ''Ann'', excludedUserIds = [''A'', ''B''], ready = True\<rparr>"

abbreviation bob :: User where
  "bob \<equiv> \<lparr>id_user = ''B'', name = ''Bob'', excludedUserIds = [''B''], ready = True\<rparr>"


abbreviation always_low :: random_source where
  "always_low \<equiv> (\<lambda>n. 1 / 4)"


abbreviation one_low_then_high :: random_source where
  "one_low_then_high \<equiv> (\<lambda>n. if n < 1 then 1 / 4 else 3 / 4)"

abbreviation low_through_5_then_high :: random_source where
  "low_through_5_then_high \<equiv> (\<lambda>n. if n < 6 then 1 / 4 else 3 / 4)"

abbreviation low_until_999 :: random_source where
  "low_until_999 \<equiv> (\<lambda>n. if n < 999 then 1 / 4 else 3 / 4)"

section \<open>The sort and the shuffle\<close>

lemma sort_with_fst_outcomes: "fst (sort_with cmp t s) \<in> outcomes t"
proof (induction t arbitrary: s)
  case (Return ys)
  show ?case by simp
next
  case (Compare a b k)
  obtain v s' where c: "cmp a b s = (v, s')" by (cases "cmp a b s")
  have "fst (sort_with cmp (k v) s') \<in> outcomes (k v)"
    by (rule Compare.IH) (rule rangeI)
  with c show ?case by auto
qed

lemma shuffle_mset:
  assumes "permuting engine"
  shows "mset (fst (shuffle engine rs xs s)) = mset xs"
proof -
  have "fst (shuffle engine rs xs s) \<in> outcomes (engine xs)"
    unfolding shuffle_def by (rule sort_with_fst_outcomes)
  with assms show ?thesis unfolding permuting_def by blast
qed

lemma nth_shuffle_mset:
  "permuting engine \<Longrightarrow> mset (fst (nth_shuffle engine rs xs s k)) = mset xs"
  by (induction k arbitrary: s) (simp_all add: shuffle_mset)

lemma outcomes_insert_step:
  "outcomes (insert_step x ys k) \<subseteq> (\<Union>zs \<in> {zs. mset zs = mset (x # ys)}. outcomes (k zs))"
proof (induction ys arbitrary: k)
  case Nil
  then show ?case by auto
next
  case (Cons y ys)
  show ?case
  proof
    fix r assume "r \<in> outcomes (insert_step x (y # ys) k)"
    then obtain v :: real where v: "r \<in> outcomes (if v < 0 then k (x # y # ys) else insert_step x ys (\<lambda>zs. k (y # zs)))"
      by auto
    show "r \<in> (\<Union>zs \<in> {zs. mset zs = mset (x # y # ys)}. outcomes (k zs))"
    proof (cases "v < 0")
      case True
      with v show ?thesis by (intro UN_I [of "x # y # ys"]) auto
    next
      case False
      with v have "r \<in> outcomes (insert_step x ys (\<lambda>zs. k (y # zs)))" by simp
      with Cons.IH [of "\<lambda>zs. k (y # zs)"] obtain zs where "mset zs = mset (x # ys)" "r \<in> outcomes (k (y # zs))"
        by auto
      then show ?thesis by (intro UN_I [of "y # zs"]) auto
    qed
  qed
qed

lemma outcomes_insertion_steps:
  "outcomes (insertion_steps xs k) \<subseteq> (\<Union>zs \<in> {zs. mset zs = mset xs}. outcomes (k zs))"
proof (induction xs arbitrary: k)
  case Nil
  then show ?case by auto
next
  case (Cons x xs)
  show ?case
  proof
    fix r assume "r \<in> outcomes (insertion_steps (x # xs) k)"
    then have "r \<in> outcomes (insertion_steps xs (\<lambda>ys. insert_step x ys k))" by simp
    with Cons.IH [of "\<lambda>ys. insert_step x ys k"] obtain ys where ys: "mset ys = mset xs" "r \<in> outcomes (insert_step x ys k)"
      by auto
    with outcomes_insert_step [of x ys k] obtain zs where "mset zs = mset (x # ys)" "r \<in> outcomes (k zs)"
      by auto
    with ys show "r \<in> (\<Union>zs \<in> {zs. mset zs = mset (x # xs)}. outcomes (k zs))"
      by (intro UN_I [of zs]) auto
  qed
qed

lemma permuting_insertion_sort: "permuting insertion_sort"
proof -
  have "mset ys = mset xs" if "ys \<in> outcomes (insertion_sort xs)" for xs ys :: "'a list"
  proof -
    from that outcomes_insertion_steps [of xs Return]
    obtain zs where "mset zs = mset xs" "ys \<in> outcomes (Return zs)"
      unfolding insertion_sort_def by blast
    then show ?thesis by simp
  qed
  then show ?thesis unfolding permuting_def by blast
qed

text \<open>Two calls that see the same random values sort alike and consume as many of them.\<close>

lemma sort_with_same_values:
  "\<forall>i. rs (s + i) = rs' (s' + i) \<Longrightarrow>
     \<exists>ys n. sort_with (random_comparator rs) t s = (ys, s + n)
          \<and> sort_with (random_comparator rs') t s' = (ys, s' + n)"
proof (induction t arbitrary: s s')
  case (Return ys)
  have "sort_with (random_comparator rs) (Return ys) s = (ys, s + 0)
      \<and> sort_with (random_comparator rs') (Return ys) s' = (ys, s' + 0)" by simp
  then show ?case by blast
next
  case (Compare a b k)
  from Compare.prems have here: "rs s = rs' s'" by (metis add.right_neutral)
  from Compare.prems have later: "\<forall>i. rs (Suc s + i) = rs' (Suc s' + i)"
    by (metis add_Suc_shift add_Suc_right add_Suc)
  have "k (rs s - 1 / 2) \<in> range k" by (rule rangeI)
  from Compare.IH [OF this later] obtain ys n where
    1: "sort_with (random_comparator rs) (k (rs s - 1 / 2)) (Suc s) = (ys, Suc s + n)" and
    2: "sort_with (random_comparator rs') (k (rs s - 1 / 2)) (Suc s') = (ys, Suc s' + n)" by blast
  have "sort_with (random_comparator rs) (Compare a b k) s = (ys, s + Suc n)"
    using 1 by (simp add: random_comparator_def math_random_def)
  moreover have "sort_with (random_comparator rs') (Compare a b k) s' = (ys, s' + Suc n)"
    using 2 here by (simp add: random_comparator_def math_random_def)
  ultimately show ?case by blast
qed





section \<open>The validation loop\<close>

text \<open>The loop accepts exactly when every index from \<open>i\<close> on passes the three tests.\<close>

lemma validate_from_iff:
  "validate_from users sh i \<longleftrightarrow>
     (\<forall>j. i \<le> j \<and> j < length users \<longrightarrow>
        (\<exists>a. js_index sh j = Some a \<and> a \<noteq> [] \<and> a \<noteq> id_user (users ! j)
             \<and> a \<notin> set (excludedUserIds (users ! j))))"
proof (induction users sh i rule: validate_from.induct)
  case (1 users sh i)
  define ok where "ok = (\<lambda>j. \<exists>a. js_index sh j = Some a \<and> a \<noteq> [] \<and> a \<noteq> id_user (users ! j)
             \<and> a \<notin> set (excludedUserIds (users ! j)))"
  have goal: "validate_from users sh i \<longleftrightarrow> (\<forall>j. i \<le> j \<and> j < length users \<longrightarrow> ok j)"
  proof (cases "i < length users")
    case False
    then have "validate_from users sh i" by (subst validate_from.simps) simp
    moreover from False have "\<forall>j. i \<le> j \<and> j < length users \<longrightarrow> ok j" by auto
    ultimately show ?thesis by blast
  next
    case True
    have split: "(\<forall>j. i \<le> j \<and> j < length users \<longrightarrow> ok j)
        \<longleftrightarrow> ok i \<and> (\<forall>j. i + 1 \<le> j \<and> j < length users \<longrightarrow> ok j)"
    proof
      assume a: "\<forall>j. i \<le> j \<and> j < length users \<longrightarrow> ok j"
      with True have "ok i" by simp
      moreover from a have "\<forall>j. i + 1 \<le> j \<and> j < length users \<longrightarrow> ok j" by simp
      ultimately show "ok i \<and> (\<forall>j. i + 1 \<le> j \<and> j < length users \<longrightarrow> ok j)" by blast
    next
      assume b: "ok i \<and> (\<forall>j. i + 1 \<le> j \<and> j < length users \<longrightarrow> ok j)"
      show "\<forall>j. i \<le> j \<and> j < length users \<longrightarrow> ok j"
      proof (intro allI impI)
        fix j assume j: "i \<le> j \<and> j < length users"
        show "ok j"
        proof (cases "j = i")
          case True
          with b show ?thesis by simp
        next
          case False
          with j have "i + 1 \<le> j" by simp
          with b j show ?thesis by blast
        qed
      qed
    qed
    show ?thesis
    proof (cases "ok i")
      case False
      then have bad: "(case js_index sh i of None \<Rightarrow> True | Some a \<Rightarrow> a = [])
            \<or> js_index sh i = Some (id_user (users ! i))
            \<or> (case js_index sh i of None \<Rightarrow> False | Some a \<Rightarrow> a \<in> set (excludedUserIds (users ! i)))"
        unfolding ok_def by (cases "js_index sh i") auto
      have "\<not> validate_from users sh i"
        using True bad by (subst validate_from.simps) (simp add: Let_def)
      with False split show ?thesis by blast
    next
      case ok: True
      then have bad: "\<not> ((case js_index sh i of None \<Rightarrow> True | Some a \<Rightarrow> a = [])
            \<or> js_index sh i = Some (id_user (users ! i))
            \<or> (case js_index sh i of None \<Rightarrow> False | Some a \<Rightarrow> a \<in> set (excludedUserIds (users ! i))))"
        unfolding ok_def by auto
      have "validate_from users sh i = validate_from users sh (i + 1)"
        using True bad by (subst validate_from.simps) (simp add: Let_def)
      also have "\<dots> \<longleftrightarrow> (\<forall>j. i + 1 \<le> j \<and> j < length users \<longrightarrow> ok j)"
        unfolding ok_def using "1.IH" [OF True refl refl bad] .
      finally show ?thesis using ok split by blast
    qed
  qed
  then show ?case unfolding ok_def .
qed

lemma valid_length:
  assumes "validate_from users sh 0" shows "length users \<le> length sh"
proof (rule ccontr)
  assume "\<not> length users \<le> length sh"
  then have j: "length sh < length users" by simp
  with assms have "\<exists>a. js_index sh (length sh) = Some a"
    unfolding validate_from_iff by blast
  then show False by (simp add: js_index_def)
qed

lemma validate_from_cong:
  assumes i: "map id_user users = map id_user users'"
    and x: "map excludedUserIds users = map excludedUserIds users'"
  shows "validate_from users sh i = validate_from users' sh i"
proof -
  from i have len: "length users = length users'" by (rule map_eq_imp_length_eq)
  have a: "id_user (users ! j) = id_user (users' ! j)" if "j < length users" for j
    using that i len by (metis nth_map)
  have b: "excludedUserIds (users ! j) = excludedUserIds (users' ! j)" if "j < length users" for j
    using that x len by (metis nth_map)
  show ?thesis unfolding validate_from_iff using a b len by auto
qed




section \<open>The retry loop\<close>


lemma attempt_loop_success:
  "attempt_loop engine rs users userIds attempts sh s = (n, sh', s') \<Longrightarrow> n < 1000 \<Longrightarrow> attempts < 1000 \<Longrightarrow>
     validate_from users sh' 0 \<and> (\<exists>s0. shuffle engine rs userIds s0 = (sh', s'))"
proof (induction engine rs users userIds attempts sh s rule: attempt_loop.induct)
  case (1 engine rs users userIds attempts sh s)
  obtain sh1 s1 where sh: "shuffle engine rs userIds s = (sh1, s1)" by (cases "shuffle engine rs userIds s")
  show ?case
  proof (cases "validate_from users sh1 0")
    case v: True
    with "1.prems" sh have "sh' = sh1" "s' = s1"
      by (subst (asm) attempt_loop.simps, simp)+
    with v sh show ?thesis by blast
  next
    case v: False
    with "1.prems" sh have eq: "attempt_loop engine rs users userIds (attempts + 1) sh1 s1 = (n, sh', s')"
      by (subst (asm) attempt_loop.simps) simp
    show ?thesis
    proof (cases "attempts + 1 < 1000")
      case True
      from "1.IH" [OF "1.prems"(3) refl sh [symmetric] v eq "1.prems"(2) True] show ?thesis .
    next
      case False
      with eq have "n = attempts + 1" by (subst (asm) attempt_loop.simps) simp
      with False "1.prems" show ?thesis by simp
    qed
  qed
qed

lemma attempt_loop_all_fail:
  "\<forall>s. \<not> validate_from users (fst (shuffle engine rs userIds s)) 0 \<Longrightarrow>
     1000 \<le> fst (attempt_loop engine rs users userIds attempts sh s)"
proof (induction engine rs users userIds attempts sh s rule: attempt_loop.induct)
  case (1 engine rs users userIds attempts sh s)
  show ?case
  proof (cases "attempts < 1000")
    case False
    then show ?thesis by (subst attempt_loop.simps) simp
  next
    case True
    obtain sh' s' where sh: "shuffle engine rs userIds s = (sh', s')" by (cases "shuffle engine rs userIds s")
    from "1.prems" sh have v: "\<not> validate_from users sh' 0" by (metis fst_conv)
    have "1000 \<le> fst (attempt_loop engine rs users userIds (attempts + 1) sh' s')"
      using "1.IH" [OF True refl sh [symmetric] v "1.prems"] .
    with True sh v show ?thesis by (subst attempt_loop.simps) simp
  qed
qed

text \<open>
  The loop leaves with \<^verbatim>\<open>attempts < 1000\<close> exactly when one of the attempts that bring
  the counter to at most 999 validates.
\<close>

lemma attempt_loop_iff:
  "fst (attempt_loop engine rs users userIds attempts sh s) < 1000 \<longleftrightarrow>
     (\<exists>k. attempts + k < 999 \<and> validate_from users (fst (nth_shuffle engine rs userIds s k)) 0)"
proof (induction engine rs users userIds attempts sh s rule: attempt_loop.induct)
  case (1 engine rs users userIds attempts sh s)
  show ?case
  proof (cases "attempts < 1000")
    case False
    then have "fst (attempt_loop engine rs users userIds attempts sh s) = attempts"
      by (subst attempt_loop.simps) simp
    with False show ?thesis by simp
  next
    case True
    obtain sh' s' where sh: "shuffle engine rs userIds s = (sh', s')" by (cases "shuffle engine rs userIds s")
    show ?thesis
    proof (cases "validate_from users sh' 0")
      case v: True
      then have e: "fst (attempt_loop engine rs users userIds attempts sh s) = attempts + 1"
        using True sh by (subst attempt_loop.simps) simp
      show ?thesis
      proof
        assume "fst (attempt_loop engine rs users userIds attempts sh s) < 1000"
        with e have "attempts + 0 < 999" by simp
        moreover from v sh have "validate_from users (fst (nth_shuffle engine rs userIds s 0)) 0" by simp
        ultimately show "\<exists>k. attempts + k < 999 \<and> validate_from users (fst (nth_shuffle engine rs userIds s k)) 0"
          by blast
      next
        assume "\<exists>k. attempts + k < 999 \<and> validate_from users (fst (nth_shuffle engine rs userIds s k)) 0"
        then have "attempts < 999" by auto
        with e show "fst (attempt_loop engine rs users userIds attempts sh s) < 1000" by simp
      qed
    next
      case v: False
      then have e: "attempt_loop engine rs users userIds attempts sh s
          = attempt_loop engine rs users userIds (attempts + 1) sh' s'"
        using True sh by (subst attempt_loop.simps) simp
      have ih: "fst (attempt_loop engine rs users userIds (attempts + 1) sh' s') < 1000 \<longleftrightarrow>
          (\<exists>k. attempts + 1 + k < 999 \<and> validate_from users (fst (nth_shuffle engine rs userIds s' k)) 0)"
        using "1.IH" [OF True refl sh [symmetric] v] .
      have "(\<exists>k. attempts + 1 + k < 999 \<and> validate_from users (fst (nth_shuffle engine rs userIds s' k)) 0)
          \<longleftrightarrow> (\<exists>k. attempts + k < 999 \<and> validate_from users (fst (nth_shuffle engine rs userIds s k)) 0)"
      proof
        assume "\<exists>k. attempts + 1 + k < 999 \<and> validate_from users (fst (nth_shuffle engine rs userIds s' k)) 0"
        then obtain k where "attempts + 1 + k < 999" "validate_from users (fst (nth_shuffle engine rs userIds s' k)) 0"
          by blast
        with sh have "attempts + Suc k < 999 \<and> validate_from users (fst (nth_shuffle engine rs userIds s (Suc k))) 0"
          by simp
        then show "\<exists>k. attempts + k < 999 \<and> validate_from users (fst (nth_shuffle engine rs userIds s k)) 0"
          by blast
      next
        assume "\<exists>k. attempts + k < 999 \<and> validate_from users (fst (nth_shuffle engine rs userIds s k)) 0"
        then obtain k where k: "attempts + k < 999" "validate_from users (fst (nth_shuffle engine rs userIds s k)) 0"
          by blast
        with v sh have "k \<noteq> 0" by (cases k) auto
        then obtain k' where k': "k = Suc k'" by (cases k) auto
        with k sh have "attempts + 1 + k' < 999 \<and> validate_from users (fst (nth_shuffle engine rs userIds s' k')) 0"
          by simp
        then show "\<exists>k. attempts + 1 + k < 999 \<and> validate_from users (fst (nth_shuffle engine rs userIds s' k)) 0"
          by blast
      qed
      with ih e show ?thesis by simp
    qed
  qed
qed

lemma attempt_loop_same_values:
  assumes i: "map id_user users = map id_user users'"
    and x: "map excludedUserIds users = map excludedUserIds users'"
  shows "\<forall>i. rs (s + i) = rs' (s' + i) \<Longrightarrow>
     \<exists>n sh d. attempt_loop engine rs users userIds attempts sh0 s = (n, sh, s + d)
          \<and> attempt_loop engine rs' users' userIds attempts sh0 s' = (n, sh, s' + d)"
proof (induction "1000 - attempts" arbitrary: attempts sh0 s s')
  case 0
  then have "\<not> attempts < 1000" by simp
  then have "attempt_loop engine rs users userIds attempts sh0 s = (attempts, sh0, s + 0)"
    "attempt_loop engine rs' users' userIds attempts sh0 s' = (attempts, sh0, s' + 0)"
    by (subst attempt_loop.simps, simp)+
  then show ?case by blast
next
  case (Suc m)
  from Suc.hyps(2) have lt: "attempts < 1000" by simp
  from sort_with_same_values [OF Suc.prems, of "engine userIds"] obtain ys d where
    1: "shuffle engine rs userIds s = (ys, s + d)" and 2: "shuffle engine rs' userIds s' = (ys, s' + d)"
    unfolding shuffle_def by blast
  have v: "validate_from users ys 0 = validate_from users' ys 0" by (rule validate_from_cong [OF i x])
  show ?case
  proof (cases "validate_from users ys 0")
    case True
    with v lt 1 2 have "attempt_loop engine rs users userIds attempts sh0 s = (attempts + 1, ys, s + d)"
      "attempt_loop engine rs' users' userIds attempts sh0 s' = (attempts + 1, ys, s' + d)"
      by (subst attempt_loop.simps, simp)+
    then show ?thesis by blast
  next
    case False
    with v lt 1 2 have u1: "attempt_loop engine rs users userIds attempts sh0 s
        = attempt_loop engine rs users userIds (attempts + 1) ys (s + d)"
      and u2: "attempt_loop engine rs' users' userIds attempts sh0 s'
        = attempt_loop engine rs' users' userIds (attempts + 1) ys (s' + d)"
      by (subst attempt_loop.simps, simp)+
    from Suc.prems have later: "\<forall>i. rs (s + d + i) = rs' (s' + d + i)"
      by (metis add.assoc)
    from Suc.hyps(2) have "m = 1000 - (attempts + 1)" by simp
    from Suc.hyps(1) [OF this later, of ys] obtain n sh e where
      "attempt_loop engine rs users userIds (attempts + 1) ys (s + d) = (n, sh, s + d + e)"
      "attempt_loop engine rs' users' userIds (attempts + 1) ys (s' + d) = (n, sh, s' + d + e)" by blast
    with u1 u2 have "attempt_loop engine rs users userIds attempts sh0 s = (n, sh, s + (d + e))"
      "attempt_loop engine rs' users' userIds attempts sh0 s' = (n, sh, s' + (d + e))"
      by (simp_all add: add.assoc)
    then show ?thesis by blast
  qed
qed




section \<open>The result map\<close>

lemma fill_result_other:
  "(\<forall>j. i \<le> j \<and> j < length users \<longrightarrow> id_user (users ! j) \<noteq> k) \<Longrightarrow>
     fill_result users sh i m k = m k"
proof (induction users sh i m rule: fill_result.induct)
  case (1 users sh i m)
  show ?case
  proof (cases "i < length users")
    case False
    then show ?thesis by (subst fill_result.simps) simp
  next
    case True
    from "1.prems" True have ne: "id_user (users ! i) \<noteq> k" by simp
    from "1.prems" have rest: "\<forall>j. i + 1 \<le> j \<and> j < length users \<longrightarrow> id_user (users ! j) \<noteq> k"
      by simp
    have "fill_result users sh i m k
        = fill_result users sh (i + 1) (m(id_user (users ! i) \<mapsto> js_index sh i)) k"
      using True by (subst fill_result.simps) (simp add: Let_def)
    also have "\<dots> = (m(id_user (users ! i) \<mapsto> js_index sh i)) k"
      using "1.IH" [OF True refl refl rest] .
    also have "\<dots> = m k" using ne by simp
    finally show ?thesis .
  qed
qed

lemma fill_result_inv:
  "(\<forall>k v. m k = Some v \<longrightarrow> P k v) \<Longrightarrow>
   (\<forall>j. i \<le> j \<and> j < length users \<longrightarrow> P (id_user (users ! j)) (js_index sh j)) \<Longrightarrow>
   fill_result users sh i m k = Some v \<Longrightarrow> P k v"
proof (induction users sh i m rule: fill_result.induct)
  case (1 users sh i m)
  show ?case
  proof (cases "i < length users")
    case False
    with "1.prems"(3) have "m k = Some v" by (subst (asm) fill_result.simps) simp
    with "1.prems"(1) show ?thesis by blast
  next
    case True
    let ?m = "m(id_user (users ! i) \<mapsto> js_index sh i)"
    from "1.prems"(2) True have Pi: "P (id_user (users ! i)) (js_index sh i)" by simp
    with "1.prems"(1) have inv: "\<forall>k v. ?m k = Some v \<longrightarrow> P k v" by simp
    from "1.prems"(2) have rest: "\<forall>j. i + 1 \<le> j \<and> j < length users \<longrightarrow> P (id_user (users ! j)) (js_index sh j)"
      by simp
    from "1.prems"(3) True have "fill_result users sh (i + 1) ?m k = Some v"
      by (subst (asm) fill_result.simps) (simp add: Let_def)
    from "1.IH" [OF True refl refl inv rest this] show ?thesis .
  qed
qed

lemma fill_result_at:
  "distinct (map id_user users) \<Longrightarrow> i \<le> j \<Longrightarrow> j < length users \<Longrightarrow>
     fill_result users sh i m (id_user (users ! j)) = Some (js_index sh j)"
proof (induction users sh i m rule: fill_result.induct)
  case (1 users sh i m)
  from "1.prems" have True: "i < length users" by simp
  let ?m = "m(id_user (users ! i) \<mapsto> js_index sh i)"
  have step: "fill_result users sh i m (id_user (users ! j))
        = fill_result users sh (i + 1) ?m (id_user (users ! j))"
    using True by (subst fill_result.simps) (simp add: Let_def)
  show ?case
  proof (cases "j = i")
    case False
    with "1.prems" have "i + 1 \<le> j" by simp
    have "fill_result users sh (i + 1) ?m (id_user (users ! j)) = Some (js_index sh j)"
      by (rule "1.IH" [OF True refl refl "1.prems"(1) \<open>i + 1 \<le> j\<close> "1.prems"(3)])
    with step show ?thesis by (simp only:)
  next
    case eq: True
    have "\<forall>j'. i + 1 \<le> j' \<and> j' < length users \<longrightarrow> id_user (users ! j') \<noteq> id_user (users ! i)"
    proof (intro allI impI)
      fix j' assume j': "i + 1 \<le> j' \<and> j' < length users"
      then have "j' \<noteq> i" "j' < length (map id_user users)" "i < length (map id_user users)"
        using True by simp_all
      with "1.prems"(1) have "map id_user users ! j' \<noteq> map id_user users ! i"
        using nth_eq_iff_index_eq by blast
      with j' True show "id_user (users ! j') \<noteq> id_user (users ! i)" by simp
    qed
    from fill_result_other [OF this] have "fill_result users sh (i + 1) ?m (id_user (users ! i)) = ?m (id_user (users ! i))" .
    with step eq show ?thesis by simp
  qed
qed

lemma fill_result_dom:
  "dom (fill_result users sh i m) = dom m \<union> {id_user (users ! j) | j. i \<le> j \<and> j < length users}"
proof (induction users sh i m rule: fill_result.induct)
  case (1 users sh i m)
  show ?case
  proof (cases "i < length users")
    case False
    then show ?thesis by (subst fill_result.simps) auto
  next
    case True
    let ?m = "m(id_user (users ! i) \<mapsto> js_index sh i)"
    have eq: "fill_result users sh i m = fill_result users sh (i + 1) ?m"
      using True by (subst fill_result.simps) (simp add: Let_def)
    have "dom (fill_result users sh (i + 1) ?m) = dom ?m \<union> {id_user (users ! j) | j. i + 1 \<le> j \<and> j < length users}"
      by (rule "1.IH" [OF True refl refl])
    with eq have "dom (fill_result users sh i m) = dom ?m \<union> {id_user (users ! j) | j. i + 1 \<le> j \<and> j < length users}"
      by (simp only:)
    also have "\<dots> = dom m \<union> ({id_user (users ! i)} \<union> {id_user (users ! j) | j. i + 1 \<le> j \<and> j < length users})"
      by auto
    also have "{id_user (users ! i)} \<union> {id_user (users ! j) | j. i + 1 \<le> j \<and> j < length users}
         = {id_user (users ! j) | j. i \<le> j \<and> j < length users}" (is "?A = ?B")
    proof
      show "?A \<subseteq> ?B" using True by auto
      show "?B \<subseteq> ?A"
      proof
        fix x assume "x \<in> ?B"
        then obtain j where j: "x = id_user (users ! j)" "i \<le> j" "j < length users" by blast
        show "x \<in> ?A"
        proof (cases "j = i")
          case True
          with j show ?thesis by simp
        next
          case False
          with j have "i + 1 \<le> j" by simp
          with j show ?thesis by blast
        qed
      qed
    qed
    finally show ?thesis .
  qed
qed

lemma fill_result_cong:
  assumes i: "map id_user users = map id_user users'"
  shows "fill_result users sh i m = fill_result users' sh i m"
proof (induction "length users - i" arbitrary: i m)
  case 0
  from i have len: "length users = length users'" by (rule map_eq_imp_length_eq)
  from 0 have "\<not> i < length users" by simp
  with len have "fill_result users sh i m = m" "fill_result users' sh i m = m"
    by (subst fill_result.simps, simp)+
  then show ?case by simp
next
  case (Suc n)
  from i have len: "length users = length users'" by (rule map_eq_imp_length_eq)
  from Suc.hyps(2) have lt: "i < length users" by simp
  with i len have same: "id_user (users ! i) = id_user (users' ! i)" by (metis nth_map)
  let ?m = "m(id_user (users ! i) \<mapsto> js_index sh i)"
  have 1: "fill_result users sh i m = fill_result users sh (i + 1) ?m"
    using lt by (subst fill_result.simps) (simp add: Let_def)
  have 2: "fill_result users' sh i m = fill_result users' sh (i + 1) ?m"
    using lt len same by (subst fill_result.simps) (simp add: Let_def)
  from Suc.hyps(2) have "n = length users - (i + 1)" by simp
  from Suc.hyps(1) [OF this] have "fill_result users sh (i + 1) ?m = fill_result users' sh (i + 1) ?m" .
  with 1 2 show ?case by (simp only:)
qed

section \<open>The whole call\<close>

lemma generate_success:
  assumes "fst (generateAssignments engine rs users s) = Inr m"
  shows "\<exists>sh s0. m = fill_result users sh 0 Map.empty \<and> validate_from users sh 0
           \<and> sh = fst (shuffle engine rs (map id_user users) s0) \<and> 2 \<le> length users"
proof -
  obtain n sh s' where al: "attempt_loop engine rs users (map id_user users) 0 [] s = (n, sh, s')"
    by (cases "attempt_loop engine rs users (map id_user users) 0 [] s")
  from assms al have len: "2 \<le> length users" and n: "n < 1000" and m: "m = fill_result users sh 0 Map.empty"
    by (auto simp: generateAssignments_def Let_def split: if_splits)
  from attempt_loop_success [OF al n] obtain s0 where "validate_from users sh 0" "shuffle engine rs (map id_user users) s0 = (sh, s')"
    by auto
  with m len show ?thesis by (metis fst_conv)
qed

lemma generate_all_fail:
  assumes "2 \<le> length users"
    and "\<forall>s. \<not> validate_from users (fst (shuffle engine rs (map id_user users) s)) 0"
  shows "fst (generateAssignments engine rs users s) = Inl ImpossibleToGenerate"
proof -
  obtain n sh s' where al: "attempt_loop engine rs users (map id_user users) 0 [] s = (n, sh, s')"
    by (cases "attempt_loop engine rs users (map id_user users) 0 [] s")
  from attempt_loop_all_fail [OF assms(2), of 0 "[]" s] al have "1000 \<le> n" by simp
  with assms(1) al show ?thesis by (simp add: generateAssignments_def Let_def)
qed

lemma generate_succeeds_iff:
  assumes "2 \<le> length users"
  shows "(\<exists>m. fst (generateAssignments engine rs users s) = Inr m) \<longleftrightarrow>
     (\<exists>k < 999. validate_from users (fst (nth_shuffle engine rs (map id_user users) s k)) 0)"
proof -
  obtain n sh s' where al: "attempt_loop engine rs users (map id_user users) 0 [] s = (n, sh, s')"
    by (cases "attempt_loop engine rs users (map id_user users) 0 [] s")
  from assms al have "(\<exists>m. fst (generateAssignments engine rs users s) = Inr m) \<longleftrightarrow> n < 1000"
    by (auto simp: generateAssignments_def Let_def)
  also have "\<dots> \<longleftrightarrow> fst (attempt_loop engine rs users (map id_user users) 0 [] s) < 1000"
    using al by simp
  also have "\<dots> \<longleftrightarrow> (\<exists>k. 0 + k < 999 \<and> validate_from users (fst (nth_shuffle engine rs (map id_user users) s k)) 0)"
    by (rule attempt_loop_iff)
  finally show ?thesis by simp
qed

lemma generate_error_cases:
  "2 \<le> length users \<Longrightarrow> \<not> (\<exists>m. fst (generateAssignments engine rs users s) = Inr m)
     \<Longrightarrow> fst (generateAssignments engine rs users s) = Inl ImpossibleToGenerate"
  by (auto simp: generateAssignments_def Let_def split: prod.splits if_splits)

section \<open>Small lists and dyadic numbers\<close>

lemma mset_two:
  assumes "mset xs = {#a, b#}" shows "xs = [a, b] \<or> xs = [b, a]"
proof -
  from assms have "size (mset xs) = size {#a, b#}" by (simp only:)
  then have "length xs = 2" by simp
  then obtain x y where xs: "xs = [x, y]"
    by (auto simp: numeral_2_eq_2 length_Suc_conv)
  with assms have "{#x, y#} = {#a, b#}" by simp
  then have "x = a \<and> y = b \<or> x = b \<and> y = a" by (auto simp: add_eq_conv_ex)
  with xs show ?thesis by auto
qed

lemma three_derangement:
  assumes ms: "mset sh = {#x, y, z#}"
    and d: "distinct [x, y, z]"
    and f: "sh ! 0 \<noteq> x" "sh ! 1 \<noteq> y" "sh ! 2 \<noteq> z"
  shows "sh = [y, z, x] \<or> sh = [z, x, y]"
proof -
  from ms have m3: "mset sh = mset [x, y, z]" by simp
  then have "size (mset sh) = size (mset [x, y, z])" by (simp only:)
  then have "length sh = 3" by simp
  then obtain p q r where sh: "sh = [p, q, r]"
    by (auto simp: numeral_3_eq_3 length_Suc_conv)
  from m3 have "set sh = set [x, y, z]" by (rule mset_eq_setD)
  with sh have mem: "p \<in> {x, y, z}" "q \<in> {x, y, z}" "r \<in> {x, y, z}" by auto
  from m3 d have "distinct sh" using mset_eq_imp_distinct_iff by blast
  with sh have dd: "p \<noteq> q" "p \<noteq> r" "q \<noteq> r" by auto
  from f sh have "p \<noteq> x" "q \<noteq> y" "r \<noteq> z" by simp_all
  with mem dd sh show ?thesis by auto
qed

lemma three_valid_iff:
  assumes u: "users = [a, b, c]"
    and n: "\<forall>u \<in> set users. id_user u \<noteq> [] \<and> set (excludedUserIds u) \<subseteq> {id_user u}"
    and ms: "mset sh = mset (map id_user users)"
  shows "validate_from users sh 0 \<longleftrightarrow> (\<forall>j < 3. sh ! j \<noteq> map id_user users ! j)"
proof -
  from ms have "size (mset sh) = size (mset (map id_user users))" by simp
  with u have len: "length sh = 3" by simp
  from ms have st: "set sh = set (map id_user users)" by (rule mset_eq_setD)
  have ne: "sh ! j \<noteq> []" if "j < 3" for j
  proof -
    from that len have "sh ! j \<in> set sh" by simp
    with st n show ?thesis by auto
  qed
  have ex: "sh ! j \<notin> set (excludedUserIds (users ! j))" if "j < 3" "sh ! j \<noteq> id_user (users ! j)" for j
  proof -
    from that u have "users ! j \<in> set users" by (intro nth_mem) simp
    with n have "set (excludedUserIds (users ! j)) \<subseteq> {id_user (users ! j)}" by blast
    with that show ?thesis by blast
  qed
  have nm: "map id_user users ! j = id_user (users ! j)" if "j < 3" for j
    using that u by (intro nth_map) simp
  have "validate_from users sh 0 \<longleftrightarrow> (\<forall>j < 3. sh ! j \<noteq> [] \<and> sh ! j \<noteq> id_user (users ! j)
          \<and> sh ! j \<notin> set (excludedUserIds (users ! j)))"
    unfolding validate_from_iff using u len by (auto simp: js_index_def)
  also have "\<dots> \<longleftrightarrow> (\<forall>j < 3. sh ! j \<noteq> id_user (users ! j))"
    using ne ex by blast
  also have "\<dots> \<longleftrightarrow> (\<forall>j < 3. sh ! j \<noteq> map id_user users ! j)"
    using nm by simp
  finally show ?thesis .
qed

lemma dyadic_sum:
  "finite A \<Longrightarrow> (\<forall>j \<in> A. \<exists>(m::int) (d::nat). f j = real_of_int m / 2 ^ d)
     \<Longrightarrow> \<exists>(m::int) (d::nat). (\<Sum>j \<in> A. f j) = real_of_int m / 2 ^ d"
proof (induction A rule: finite_induct)
  case empty
  have "(\<Sum>j \<in> {}. f j) = real_of_int 0 / 2 ^ 0" by simp
  then show ?case by blast
next
  case (insert a A)
  from insert.prems obtain m1 :: int and d1 :: nat where 1: "f a = real_of_int m1 / 2 ^ d1" by auto
  from insert.IH insert.prems obtain m2 :: int and d2 :: nat where 2: "(\<Sum>j \<in> A. f j) = real_of_int m2 / 2 ^ d2"
    by auto
  have "(\<Sum>j \<in> insert a A. f j) = f a + (\<Sum>j \<in> A. f j)"
    using insert.hyps by simp
  also have "\<dots> = real_of_int (m1 * 2 ^ d2 + m2 * 2 ^ d1) / 2 ^ (d1 + d2)"
    unfolding 1 2 by (simp add: field_simps power_add)
  finally show ?case by blast
qed

lemma outcome_probability_dyadic:
  "\<exists>(m::int) (d::nat). outcome_probability bits t zs = real_of_int m / 2 ^ d"
proof (induction t)
  case (Return ys)
  have "outcome_probability bits (Return ys) zs = real_of_int (if ys = zs then 1 else 0) / 2 ^ 0"
    by simp
  then show ?case by blast
next
  case (Compare a b k)
  have "\<forall>j \<in> {..< (2::nat) ^ bits}. \<exists>(m::int) (d::nat).
          outcome_probability bits (k (real j / 2 ^ bits - 1 / 2)) zs = real_of_int m / 2 ^ d"
    using Compare.IH by (metis rangeI)
  from dyadic_sum [OF _ this] obtain m :: int and d :: nat where
    "(\<Sum>j < 2 ^ bits. outcome_probability bits (k (real j / 2 ^ bits - 1 / 2)) zs) = real_of_int m / 2 ^ d"
    by auto
  then have "outcome_probability bits (Compare a b k) zs = real_of_int m / 2 ^ (d + bits)"
    by (simp add: power_add)
  then show ?case by blast
qed

lemma two_power_mod_3: "(2::int) ^ d mod 3 = 1 \<or> (2::int) ^ d mod 3 = 2"
proof (induction d)
  case 0
  show ?case by simp
next
  case (Suc d)
  have "(2::int) ^ Suc d = 2 * 2 ^ d" by simp
  with Suc show ?case by presburger
qed

lemma dyadic_not_inverse_factorial:
  assumes n: "3 \<le> n" and e: "real_of_int m / 2 ^ d = 1 / fact n"
  shows False
proof -
  from e have "real_of_int m * fact n = 2 ^ d" by (simp add: field_simps)
  then have "real_of_int (m * fact n) = real_of_int (2 ^ d)" by simp
  then have i: "m * fact n = 2 ^ d" by (simp only: of_int_eq_iff)
  from n have "(3::nat) dvd fact n" by (intro dvd_fact) simp_all
  then have "(3::int) dvd fact n" by (metis of_nat_dvd_iff of_nat_fact of_nat_numeral)
  then have "(3::int) dvd m * fact n" by simp
  with i have "(3::int) dvd 2 ^ d" by simp
  then have "(2::int) ^ d mod 3 = 0" by presburger
  with two_power_mod_3 [of d] show False by simp
qed

lemma shuffle_probability_not_uniform:
  "3 \<le> length array \<Longrightarrow> shuffle_probability bits engine array zs \<noteq> 1 / fact (length array)"
proof
  assume n: "3 \<le> length array" and e: "shuffle_probability bits engine array zs = 1 / fact (length array)"
  from outcome_probability_dyadic [of bits "engine array" zs] obtain m :: int and d :: nat where
    "outcome_probability bits (engine array) zs = real_of_int m / 2 ^ d" by blast
  with e have "real_of_int m / 2 ^ d = 1 / fact (length array)" by (simp add: shuffle_probability_def)
  from dyadic_not_inverse_factorial [OF n this] show False .
qed

text \<open>
  An ordering has positive probability exactly when some random source with values on
  the grid makes the sort return it: the probabilities are those of the runs of
  \<open>sort_with\<close> with the comparator of the source.
\<close>

lemma outcome_probability_nonneg: "0 \<le> outcome_probability bits t zs"
proof (induction t)
  case (Return ys)
  show ?case by simp
next
  case (Compare a b k)
  have "0 \<le> (\<Sum>j < (2::nat) ^ bits. outcome_probability bits (k (real j / 2 ^ bits - 1 / 2)) zs)"
    by (rule sum_nonneg) (rule Compare.IH, rule rangeI)
  then show ?case by simp
qed

lemma outcome_probability_support:
  "0 < outcome_probability bits t zs \<longleftrightarrow>
     (\<exists>rs. (\<forall>i. \<exists>j < (2::nat) ^ bits. rs i = real j / 2 ^ bits)
        \<and> fst (sort_with (random_comparator rs) t s) = zs)"
proof (induction t arbitrary: s)
  case (Return ys)
  have grid: "\<exists>rs :: random_source. \<forall>i. \<exists>j < (2::nat) ^ bits. rs i = real j / 2 ^ bits"
    by (intro exI [of _ "\<lambda>n. 0"] allI exI [of _ 0]) simp
  show ?case
  proof (cases "ys = zs")
    case True
    with grid show ?thesis by auto
  next
    case False
    then show ?thesis by simp
  qed
next
  case (Compare a b k)
  let ?v = "\<lambda>j::nat. real j / 2 ^ bits - 1 / 2"
  let ?p = "\<lambda>j. outcome_probability bits (k (?v j)) zs"
  have pos: "0 < outcome_probability bits (Compare a b k) zs \<longleftrightarrow> (\<exists>j < (2::nat) ^ bits. 0 < ?p j)"
  proof -
    have "0 < outcome_probability bits (Compare a b k) zs \<longleftrightarrow> 0 < (\<Sum>j < (2::nat) ^ bits. ?p j)"
      by (simp add: zero_less_divide_iff)
    also have "\<dots> \<longleftrightarrow> (\<Sum>j < (2::nat) ^ bits. ?p j) \<noteq> 0"
      using sum_nonneg [of "{..< (2::nat) ^ bits}" ?p] outcome_probability_nonneg [of bits _ zs]
      by (simp add: less_le)
    also have "\<dots> \<longleftrightarrow> \<not> (\<forall>j \<in> {..< (2::nat) ^ bits}. ?p j = 0)"
      using sum_nonneg_eq_0_iff [of "{..< (2::nat) ^ bits}" ?p] outcome_probability_nonneg [of bits _ zs]
      by simp
    also have "\<dots> \<longleftrightarrow> (\<exists>j < (2::nat) ^ bits. 0 < ?p j)"
      using outcome_probability_nonneg [of bits _ zs] by (auto simp: less_le)
    finally show ?thesis .
  qed
  show ?case
  proof
    assume "0 < outcome_probability bits (Compare a b k) zs"
    with pos obtain j where j: "j < (2::nat) ^ bits" "0 < ?p j" by blast
    have "k (?v j) \<in> range k" by (rule rangeI)
    from Compare.IH [OF this, of "Suc s"] j obtain rs where
      g: "\<forall>i. \<exists>j < (2::nat) ^ bits. rs i = real j / 2 ^ bits"
      and r: "fst (sort_with (random_comparator rs) (k (?v j)) (Suc s)) = zs" by blast
    define rs' where "rs' = rs(s := real j / 2 ^ bits)"
    have g': "\<forall>i. \<exists>j < (2::nat) ^ bits. rs' i = real j / 2 ^ bits"
      using g j unfolding rs'_def by auto
    have "\<forall>i. rs (Suc s + i) = rs' (Suc s + i)" unfolding rs'_def by simp
    from sort_with_same_values [OF this, of "k (?v j)"]
    have "fst (sort_with (random_comparator rs') (k (?v j)) (Suc s)) = zs" using r by auto
    moreover have "rs' s = real j / 2 ^ bits" unfolding rs'_def by simp
    ultimately have "fst (sort_with (random_comparator rs') (Compare a b k) s) = zs"
      by (simp add: random_comparator_def math_random_def)
    with g' show "\<exists>rs. (\<forall>i. \<exists>j < (2::nat) ^ bits. rs i = real j / 2 ^ bits)
        \<and> fst (sort_with (random_comparator rs) (Compare a b k) s) = zs" by blast
  next
    assume "\<exists>rs. (\<forall>i. \<exists>j < (2::nat) ^ bits. rs i = real j / 2 ^ bits)
        \<and> fst (sort_with (random_comparator rs) (Compare a b k) s) = zs"
    then obtain rs where g: "\<forall>i. \<exists>j < (2::nat) ^ bits. rs i = real j / 2 ^ bits"
      and r: "fst (sort_with (random_comparator rs) (Compare a b k) s) = zs" by blast
    from g obtain j where j: "j < (2::nat) ^ bits" "rs s = real j / 2 ^ bits" by blast
    from r j have "fst (sort_with (random_comparator rs) (k (?v j)) (Suc s)) = zs"
      by (simp add: random_comparator_def math_random_def)
    with g have ex: "\<exists>rs. (\<forall>i. \<exists>j < (2::nat) ^ bits. rs i = real j / 2 ^ bits)
        \<and> fst (sort_with (random_comparator rs) (k (?v j)) (Suc s)) = zs" by blast
    have "k (?v j) \<in> range k" by (rule rangeI)
    from Compare.IH [OF this, of "Suc s"] ex have "0 < ?p j" by blast
    with pos j show "0 < outcome_probability bits (Compare a b k) zs" by blast
  qed
qed

lemma sign_split_sum:
  assumes "1 \<le> bits"
  shows "(\<Sum>j < (2::nat) ^ bits. if real j / 2 ^ bits - 1 / 2 < 0 then (x::real) else y) / 2 ^ bits = (x + y) / 2"
proof -
  from assms obtain b where b: "bits = Suc b" by (cases bits) auto
  have neg: "real j / 2 ^ bits - 1 / 2 < 0 \<longleftrightarrow> j < 2 ^ b" for j :: nat
  proof -
    have "real j / 2 ^ bits - 1 / 2 < 0 \<longleftrightarrow> real j < 2 ^ b"
      unfolding b by (simp add: field_simps)
    also have "\<dots> \<longleftrightarrow> j < 2 ^ b" by (metis of_nat_less_iff of_nat_numeral of_nat_power)
    finally show ?thesis .
  qed
  have "(\<Sum>j < (2::nat) ^ bits. if real j / 2 ^ bits - 1 / 2 < 0 then x else y)
      = (\<Sum>j < (2::nat) ^ bits. if j < 2 ^ b then x else y)"
    by (simp only: neg)
  also have "\<dots> = (\<Sum>j \<in> {..< (2::nat) ^ bits} \<inter> {j. j < 2 ^ b}. x) + (\<Sum>j \<in> {..< (2::nat) ^ bits} \<inter> - {j. j < 2 ^ b}. y)"
    by (rule sum.If_cases) simp
  also have "{..< (2::nat) ^ bits} \<inter> {j. j < 2 ^ b} = {..< 2 ^ b}"
    unfolding b by auto
  also have "{..< (2::nat) ^ bits} \<inter> - {j. j < 2 ^ b} = {2 ^ b ..< 2 ^ bits}"
    by auto
  also have "(\<Sum>j \<in> {..< (2::nat) ^ b}. x) + (\<Sum>j \<in> {(2::nat) ^ b ..< 2 ^ bits}. y) = 2 ^ b * x + 2 ^ b * y"
    unfolding b by simp
  finally show ?thesis unfolding b by (simp add: field_simps)
qed

lemma sign_test_probability:
  "1 \<le> bits \<Longrightarrow> outcome_probability bits (Compare a b (\<lambda>v. if v < 0 then t1 else t2)) zs
     = (outcome_probability bits t1 zs + outcome_probability bits t2 zs) / 2"
proof -
  assume b: "1 \<le> bits"
  have "outcome_probability bits (Compare a b (\<lambda>v. if v < 0 then t1 else t2)) zs
      = (\<Sum>j < (2::nat) ^ bits. if real j / 2 ^ bits - 1 / 2 < 0 then outcome_probability bits t1 zs
            else outcome_probability bits t2 zs) / 2 ^ bits"
    by (simp add: if_distrib [of "\<lambda>t. outcome_probability bits t zs"])
  also have "\<dots> = (outcome_probability bits t1 zs + outcome_probability bits t2 zs) / 2"
    by (rule sign_split_sum [OF b])
  finally show ?thesis .
qed

section \<open>Concrete runs\<close>

lemmas eval_simps = generateAssignments_def attempt_loop.simps validate_from.simps fill_result.simps
  shuffle_def insertion_sort_def random_comparator_def math_random_def js_index_def Let_def

lemma trio_run:
  "generateAssignments insertion_sort one_low_then_high trio 0
     = (Inr [''A'' \<mapsto> Some ''B'', ''B'' \<mapsto> Some ''C'', ''C'' \<mapsto> Some ''A''], 3)"
  by (simp add: eval_simps)

lemma duo_shuffle:
  "shuffle insertion_sort rs [''A'', ''B''] s = (if rs s - 1 / 2 < 0 then [''A'', ''B''] else [''B'', ''A''], Suc s)"
  by (simp add: shuffle_def insertion_sort_def random_comparator_def math_random_def)

lemma duo_nth_shuffle:
  "nth_shuffle insertion_sort rs [''A'', ''B''] s k
     = (if rs (s + k) - 1 / 2 < 0 then [''A'', ''B''] else [''B'', ''A''], Suc (s + k))"
  by (induction k arbitrary: s) (simp_all add: duo_shuffle)





section \<open>The retry budget\<close>

text \<open>
  C1. The call should return an Assignment if and only if some attempt within the budget
  of 1000 attempts validates, the 1000th included. The code does not do this: an attempt
  that validates leaves the loop through \<^verbatim>\<open>break\<close> with \<^verbatim>\<open>attempts\<close> already
  incremented, and the test \<^verbatim>\<open>attempts >= 1000\<close> after the loop then takes a valid 1000th
  attempt for an exhausted budget. Here two participants are shuffled by a random source
  whose first 999 values keep the order (each attempt assigns everyone to themselves) and
  whose 1000th value swaps the two: the pairing of the 1000th attempt passes validation,
  and the call throws all the same.
\<close>

theorem thousandth_attempt_rejected:
  "validate_from duo (fst (nth_shuffle insertion_sort low_until_999 (map id_user duo) 0 999)) 0
   \<and> fst (generateAssignments insertion_sort low_until_999 duo 0) = Inl ImpossibleToGenerate"
proof
  have "validate_from duo [''B'', ''A''] 0"
    by (simp add: validate_from.simps js_index_def)
  then show "validate_from duo (fst (nth_shuffle insertion_sort low_until_999 (map id_user duo) 0 999)) 0"
    by (simp add: duo_nth_shuffle)
next
  have bad: "\<not> validate_from duo [''A'', ''B''] 0"
    by (simp add: validate_from.simps js_index_def)
  have "\<not> validate_from duo (fst (nth_shuffle insertion_sort low_until_999 (map id_user duo) 0 k)) 0"
    if "k < 999" for k
    using that bad by (simp add: duo_nth_shuffle)
  then have "\<not> (\<exists>k < 999. validate_from duo (fst (nth_shuffle insertion_sort low_until_999 (map id_user duo) 0 k)) 0)"
    by blast
  then have "\<not> (\<exists>m. fst (generateAssignments insertion_sort low_until_999 duo 0) = Inr m)"
    by (subst generate_succeeds_iff) simp_all
  then show "fst (generateAssignments insertion_sort low_until_999 duo 0) = Inl ImpossibleToGenerate"
    by (intro generate_error_cases) simp_all
qed

section \<open>The shuffle\<close>

text \<open>
  C2. The shuffle should produce a uniformly random permutation, each permutation of the
  input with equal probability, and not be a sort with a random comparator. The code is
  the sort with a random comparator. What holds of it: when the sort of the runtime is
  permuting, the shuffle returns a rearrangement of its input; and on a list of three or
  more elements no ordering at all has the probability \<open>1 / n!\<close> of a uniform shuffle,
  whatever the sort of the runtime and the resolution of the generator, since every
  probability is a fraction with a power of two below the line.
\<close>

theorem shuffle_permutes_not_uniformly:
  "(permuting engine \<longrightarrow> mset (fst (shuffle engine rs array s)) = mset array)
   \<and> (3 \<le> length array \<longrightarrow> shuffle_probability bits engine array zs \<noteq> 1 / fact (length array))"
  using shuffle_mset [of engine rs array s] shuffle_probability_not_uniform [of array bits engine zs]
  by blast

theorem shuffle_permutes_not_uniformly_witness:
  "mset (fst (shuffle insertion_sort one_low_then_high [''A'', ''B'', ''C''] 0)) = mset [''A'', ''B'', ''C'']
   \<and> 3 \<le> length [''A'', ''B'', ''C'']
   \<and> shuffle_probability 53 insertion_sort [''A'', ''B'', ''C''] [''B'', ''C'', ''A''] \<noteq> 1 / fact (length [''A'', ''B'', ''C''])"
proof -
  note r = shuffle_permutes_not_uniformly [of insertion_sort one_low_then_high "[''A'', ''B'', ''C'']" 0 53 "[''B'', ''C'', ''A'']"]
  have l: "3 \<le> length [''A'', ''B'', ''C'']" by simp
  from r [THEN conjunct1, THEN mp, OF permuting_insertion_sort] l r [THEN conjunct2, THEN mp, OF l]
  show ?thesis by (intro conjI)
qed

text \<open>
  With insertion sort and 53 random bits per call, the order the list already has comes
  out twice as often as the one that swaps its first two elements.
\<close>

theorem orderings_not_equally_likely:
  "shuffle_probability 53 insertion_sort [''A'', ''B'', ''C''] [''A'', ''B'', ''C''] = 1 / 4
   \<and> shuffle_probability 53 insertion_sort [''A'', ''B'', ''C''] [''B'', ''A'', ''C''] = 1 / 8"
  by (simp add: shuffle_probability_def insertion_sort_def sign_test_probability del: outcome_probability.simps(2))

section \<open>Properties of a returned assignment\<close>

text \<open>
  C3. In every Assignment returned, no giver is mapped to itself, whatever the exclusion
  lists contain; every entry is the recipient accepted for a participant with that
  identifier, outside that participant's exclusion list; and so, identifiers being
  unique within a call, the recipient of each giver is not in that giver's exclusion
  list. No assumption on the sort of the runtime is needed: the validation loop alone
  guarantees it.
\<close>

theorem no_self_no_excluded:
  assumes "fst (generateAssignments engine rs users s) = Inr m"
  shows "(\<forall>k v. m k = Some v \<longrightarrow> v \<noteq> Some k)
       \<and> (\<forall>k v. m k = Some v \<longrightarrow>
            (\<exists>u \<in> set users. \<exists>r. id_user u = k \<and> v = Some r \<and> r \<notin> set (excludedUserIds u)))
       \<and> (distinct (map id_user users) \<longrightarrow>
            (\<forall>u \<in> set users. \<forall>r. m (id_user u) = Some (Some r) \<longrightarrow> r \<notin> set (excludedUserIds u)))"
proof (intro conjI allI impI ballI)
  from generate_success [OF assms] obtain sh where m: "m = fill_result users sh 0 Map.empty"
    and v: "validate_from users sh 0" by blast
  from v have ok: "\<forall>j. j < length users \<longrightarrow>
        (\<exists>a. js_index sh j = Some a \<and> a \<noteq> [] \<and> a \<noteq> id_user (users ! j)
             \<and> a \<notin> set (excludedUserIds (users ! j)))"
    by (simp add: validate_from_iff)
  { fix k v assume kv: "m k = Some v"
    have "\<forall>j. 0 \<le> j \<and> j < length users \<longrightarrow> js_index sh j \<noteq> Some (id_user (users ! j))"
      using ok by fastforce
    from fill_result_inv [where P = "\<lambda>k v. v \<noteq> Some k", OF _ this kv [unfolded m]]
    show "v \<noteq> Some k" by simp }
  { fix k v assume kv: "m k = Some v"
    let ?P = "\<lambda>k v. \<exists>u \<in> set users. \<exists>r. id_user u = k \<and> v = Some r \<and> r \<notin> set (excludedUserIds u)"
    have "\<forall>j. 0 \<le> j \<and> j < length users \<longrightarrow> ?P (id_user (users ! j)) (js_index sh j)"
    proof (intro allI impI)
      fix j assume j: "0 \<le> j \<and> j < length users"
      with ok obtain a where "js_index sh j = Some a" "a \<notin> set (excludedUserIds (users ! j))" by blast
      moreover from j have "users ! j \<in> set users" by simp
      ultimately show "?P (id_user (users ! j)) (js_index sh j)" by blast
    qed
    from fill_result_inv [where P = ?P, OF _ this kv [unfolded m]]
    show "?P k v" by simp }
  { fix u r assume d: "distinct (map id_user users)" and u: "u \<in> set users"
      and r: "m (id_user u) = Some (Some r)"
    from u obtain j where j: "j < length users" "u = users ! j" by (auto simp: in_set_conv_nth)
    from fill_result_at [OF d _ j(1), of 0 sh Map.empty] m j r have "js_index sh j = Some r" by simp
    with ok j show "r \<notin> set (excludedUserIds u)" by fastforce }
qed

theorem no_self_no_excluded_witness:
  "fst (generateAssignments insertion_sort one_low_then_high trio 0)
     = Inr [''A'' \<mapsto> Some ''B'', ''B'' \<mapsto> Some ''C'', ''C'' \<mapsto> Some ''A'']
   \<and> distinct (map id_user trio)
   \<and> Some ''B'' \<noteq> Some ''A''
   \<and> ''B'' \<notin> set (excludedUserIds (trio ! 0))"
proof -
  let ?m = "[''A'' \<mapsto> Some ''B'', ''B'' \<mapsto> Some ''C'', ''C'' \<mapsto> Some ''A'']"
  have e: "fst (generateAssignments insertion_sort one_low_then_high trio 0) = Inr ?m"
    by (simp only: trio_run fst_conv)
  have d: "distinct (map id_user trio)" by simp
  have a: "?m ''A'' = Some (Some ''B'')" by simp
  note r = no_self_no_excluded [OF e]
  from r have "\<forall>k v. ?m k = Some v \<longrightarrow> v \<noteq> Some k" by (rule conjunct1)
  with a have r1: "Some ''B'' \<noteq> Some ''A''" by blast
  from r [THEN conjunct2, THEN conjunct2, THEN mp, OF d]
  have "\<forall>r. ?m (id_user (trio ! 0)) = Some (Some r) \<longrightarrow> r \<notin> set (excludedUserIds (trio ! 0))"
    by (rule bspec) simp
  with a have r2: "''B'' \<notin> set (excludedUserIds (trio ! 0))" by simp
  from e d r1 r2 show ?thesis by (intro conjI)
qed

text \<open>
  C4. For participants with distinct identifiers, every Assignment returned has exactly
  the participants as givers, gives each of them one recipient among the participants,
  and makes every participant the recipient of exactly one giver: it is a permutation of
  the set of identifiers. This rests on the sort of the runtime being permuting.
\<close>

theorem total_and_bijective:
  assumes ok: "fst (generateAssignments engine rs users s) = Inr m"
    and d: "distinct (map id_user users)"
    and p: "permuting engine"
  shows "dom m = set (map id_user users)
       \<and> (\<forall>k \<in> set (map id_user users). \<exists>r \<in> set (map id_user users). m k = Some (Some r))
       \<and> (\<forall>r \<in> set (map id_user users). \<exists>!k. m k = Some (Some r))"
proof -
  let ?ids = "map id_user users"
  from generate_success [OF ok] obtain sh s0 where m: "m = fill_result users sh 0 Map.empty"
    and v: "validate_from users sh 0" and sh: "sh = fst (shuffle engine rs ?ids s0)" by blast
  from shuffle_mset [OF p] sh have ms: "mset sh = mset ?ids" by simp
  then have "size (mset sh) = size (mset ?ids)" by (simp only:)
  then have len: "length sh = length users" by simp
  from ms have st: "set sh = set ?ids" by (rule mset_eq_setD)
  from ms d have dsh: "distinct sh" using mset_eq_imp_distinct_iff by blast
  have at: "m (?ids ! j) = Some (Some (sh ! j))" if "j < length users" for j
    using fill_result_at [OF d _ that, of 0 sh Map.empty] that len by (simp add: m js_index_def)
  have dom: "dom m = set ?ids"
  proof -
    have "dom m = {id_user (users ! j) | j. j < length users}"
      unfolding m fill_result_dom by simp
    also have "\<dots> = {?ids ! j | j. j < length ?ids}"
    proof (intro set_eqI iffI)
      fix x assume "x \<in> {id_user (users ! j) | j. j < length users}"
      then obtain j where "j < length users" "x = id_user (users ! j)" by blast
      then have "x = ?ids ! j \<and> j < length ?ids" by simp
      then show "x \<in> {?ids ! j | j. j < length ?ids}" by blast
    next
      fix x assume "x \<in> {?ids ! j | j. j < length ?ids}"
      then obtain j where "j < length ?ids" "x = ?ids ! j" by blast
      then have "x = id_user (users ! j) \<and> j < length users" by simp
      then show "x \<in> {id_user (users ! j) | j. j < length users}" by blast
    qed
    also have "\<dots> = set ?ids" by (rule set_conv_nth [symmetric])
    finally show ?thesis .
  qed
  have giver: "\<exists>r \<in> set ?ids. m k = Some (Some r)" if "k \<in> set ?ids" for k
  proof -
    from that obtain j where j: "j < length users" "k = ?ids ! j" by (auto simp: in_set_conv_nth)
    with at have "m k = Some (Some (sh ! j))" by simp
    moreover from j len st have "sh ! j \<in> set ?ids" by (metis nth_mem)
    ultimately show ?thesis by blast
  qed
  have recipient: "\<exists>!k. m k = Some (Some r)" if "r \<in> set ?ids" for r
  proof -
    from that st have "r \<in> set sh" by (simp only:)
    then obtain j where j: "j < length sh" "sh ! j = r" unfolding in_set_conv_nth by blast
    with len at have ex: "m (?ids ! j) = Some (Some r)" by simp
    show ?thesis
    proof (rule ex1I [of _ "?ids ! j"])
      show "m (?ids ! j) = Some (Some r)" by (rule ex)
    next
      fix k assume k: "m k = Some (Some r)"
      then have "k \<in> dom m" by blast
      with dom obtain j' where j': "j' < length users" "k = ?ids ! j'" by (auto simp: in_set_conv_nth)
      with at k have "sh ! j' = r" by simp
      with j j' len have "sh ! j' = sh ! j" "j' < length sh" "j < length sh" by simp_all
      with dsh have "j' = j" using nth_eq_iff_index_eq by blast
      with j' show "k = ?ids ! j" by simp
    qed
  qed
  from dom giver recipient show ?thesis by blast
qed

theorem total_and_bijective_witness:
  "fst (generateAssignments insertion_sort one_low_then_high trio 0)
     = Inr [''A'' \<mapsto> Some ''B'', ''B'' \<mapsto> Some ''C'', ''C'' \<mapsto> Some ''A'']
   \<and> distinct (map id_user trio)
   \<and> dom [''A'' \<mapsto> Some ''B'', ''B'' \<mapsto> Some ''C'', ''C'' \<mapsto> Some ''A''] = set (map id_user trio)
   \<and> (\<exists>!k. [''A'' \<mapsto> Some ''B'', ''B'' \<mapsto> Some ''C'', ''C'' \<mapsto> Some ''A''] k = Some (Some ''A''))"
proof -
  have e: "fst (generateAssignments insertion_sort one_low_then_high trio 0)
     = Inr [''A'' \<mapsto> Some ''B'', ''B'' \<mapsto> Some ''C'', ''C'' \<mapsto> Some ''A'']"
    by (simp only: trio_run fst_conv)
  have d: "distinct (map id_user trio)" by simp
  note r = total_and_bijective [OF e d permuting_insertion_sort]
  from r have r1: "dom [''A'' \<mapsto> Some ''B'', ''B'' \<mapsto> Some ''C'', ''C'' \<mapsto> Some ''A''] = set (map id_user trio)"
    by (rule conjunct1)
  from r have "\<forall>r \<in> set (map id_user trio). \<exists>!k. [''A'' \<mapsto> Some ''B'', ''B'' \<mapsto> Some ''C'', ''C'' \<mapsto> Some ''A''] k = Some (Some r)"
    by (elim conjE)
  then have r2: "\<exists>!k. [''A'' \<mapsto> Some ''B'', ''B'' \<mapsto> Some ''C'', ''C'' \<mapsto> Some ''A''] k = Some (Some ''A'')"
    by (rule bspec) simp
  from e d r1 r2 show ?thesis by (intro conjI)
qed

section \<open>Minimum size\<close>

text \<open>
  C5. With 0 or 1 participants the call throws "Not enough users" at once: whatever the
  sort of the runtime and whatever the random values, the result is that error and the
  generator is left in the state it was found in, so no call of \<^verbatim>\<open>Math.random\<close>, hence
  no shuffle and no attempt, has taken place.
\<close>

theorem insufficient_participants_immediate:
  "length users \<le> 1 \<Longrightarrow> generateAssignments engine rs users s = (Inl NotEnoughUsers, s)"
  by (simp add: generateAssignments_def)

theorem insufficient_participants_immediate_witness:
  "length [\<lparr>id_user = ''A'', name = ''Ann'', excludedUserIds = [''A''], ready = True\<rparr>] \<le> 1
   \<and> generateAssignments (\<lambda>xs. Return xs) (\<lambda>n. 0)
        [\<lparr>id_user = ''A'', name = ''Ann'', excludedUserIds = [''A''], ready = True\<rparr>] 7
      = (Inl NotEnoughUsers, 7)"
  using insufficient_participants_immediate
    [of "[\<lparr>id_user = ''A'', name = ''Ann'', excludedUserIds = [''A''], ready = True\<rparr>]"
        "\<lambda>xs. Return xs" "\<lambda>n. 0" 7]
  by simp

section \<open>Scenarios\<close>

text \<open>
  C6. Two participants A and B where A excludes B: whatever the random values, and in
  whichever order the two are listed, the call throws "Impossible to generate valid
  assignments". The shuffle returns the two identifiers in one order or the other, and
  each order fails validation.
\<close>

theorem two_with_exclusion_fails:
  assumes u: "users = [a, b] \<or> users = [b, a]"
    and x: "id_user b \<in> set (excludedUserIds a)"
    and p: "permuting engine"
  shows "fst (generateAssignments engine rs users s) = Inl ImpossibleToGenerate"
proof -
  from u have len: "2 \<le> length users" by auto
  show ?thesis
  proof (rule generate_all_fail [OF len], intro allI notI)
    fix s0
    let ?sh = "fst (shuffle engine rs (map id_user users) s0)"
    assume v: "validate_from users ?sh 0"
    then have ok: "\<And>j. j < length users \<Longrightarrow> \<exists>r. js_index ?sh j = Some r \<and> r \<noteq> id_user (users ! j)
             \<and> r \<notin> set (excludedUserIds (users ! j))"
      unfolding validate_from_iff by blast
    from shuffle_mset [OF p] have ms: "mset ?sh = mset (map id_user users)" .
    from u show False
    proof
      assume ab: "users = [a, b]"
      with ms have "mset ?sh = {#id_user a, id_user b#}" by simp
      from mset_two [OF this] have sh: "?sh = [id_user a, id_user b] \<or> ?sh = [id_user b, id_user a]" .
      from ok [of 0] ab obtain r where "js_index ?sh 0 = Some r" "r \<noteq> id_user a" "r \<notin> set (excludedUserIds a)"
        by auto
      with sh x show False by (auto simp: js_index_def)
    next
      assume ba: "users = [b, a]"
      with ms have "mset ?sh = {#id_user b, id_user a#}" by simp
      from mset_two [OF this] have sh: "?sh = [id_user b, id_user a] \<or> ?sh = [id_user a, id_user b]" .
      from ok [of 0] ba obtain r where r: "js_index ?sh 0 = Some r" "r \<noteq> id_user b"
        by auto
      from ok [of 1] ba obtain r' where r': "js_index ?sh 1 = Some r'" "r' \<notin> set (excludedUserIds a)"
        by auto
      from sh r r' x show False by (auto simp: js_index_def)
    qed
  qed
qed

theorem two_with_exclusion_fails_witness:
  "id_user bob \<in> set (excludedUserIds ann_excludes_bob)
   \<and> fst (generateAssignments insertion_sort one_low_then_high [ann_excludes_bob, bob] 0) = Inl ImpossibleToGenerate"
proof -
  have x: "id_user bob \<in> set (excludedUserIds ann_excludes_bob)" by simp
  have u: "[ann_excludes_bob, bob] = [ann_excludes_bob, bob] \<or> [ann_excludes_bob, bob] = [bob, ann_excludes_bob]"
    by simp
  from x two_with_exclusion_fails [OF u x permuting_insertion_sort, of one_low_then_high 0]
  show ?thesis by (intro conjI)
qed

text \<open>
  C7. Three participants with no exclusion beyond themselves should always be given a
  3-cycle. The code retries at random, and may fail. With three distinct, non-empty
  identifiers: every Assignment it returns is one of the two 3-cycles; it returns one
  when a shuffle among the first 999 moves every identifier away from its place; and it
  throws when none of the 1000 shuffles does.
\<close>

theorem three_participants_cycle_or_failure:
  assumes u: "users = [a, b, c]"
    and d: "distinct (map id_user users)"
    and n: "\<forall>u \<in> set users. id_user u \<noteq> [] \<and> set (excludedUserIds u) \<subseteq> {id_user u}"
    and p: "permuting engine"
  shows "(\<forall>m. fst (generateAssignments engine rs users s) = Inr m \<longrightarrow>
              (m (id_user a) = Some (Some (id_user b)) \<and> m (id_user b) = Some (Some (id_user c))
                  \<and> m (id_user c) = Some (Some (id_user a))
               \<or> m (id_user a) = Some (Some (id_user c)) \<and> m (id_user c) = Some (Some (id_user b))
                  \<and> m (id_user b) = Some (Some (id_user a))))
       \<and> ((\<exists>k < 999. \<forall>j < 3. fst (nth_shuffle engine rs (map id_user users) s k) ! j \<noteq> map id_user users ! j) \<longrightarrow>
            (\<exists>m. fst (generateAssignments engine rs users s) = Inr m))
       \<and> (\<not> (\<exists>k < 1000. \<forall>j < 3. fst (nth_shuffle engine rs (map id_user users) s k) ! j \<noteq> map id_user users ! j) \<longrightarrow>
            fst (generateAssignments engine rs users s) = Inl ImpossibleToGenerate)"
proof -
  let ?ids = "map id_user users"
  let ?gen = "fst (generateAssignments engine rs users s)"
  from u have len: "2 \<le> length users" by simp
  have iff: "(\<exists>m. ?gen = Inr m) \<longleftrightarrow> (\<exists>k < 999. \<forall>j < 3. fst (nth_shuffle engine rs ?ids s k) ! j \<noteq> ?ids ! j)"
    unfolding generate_succeeds_iff [OF len]
    using three_valid_iff [OF u n nth_shuffle_mset [OF p]] by simp
  have cyc: "m (id_user a) = Some (Some (id_user b)) \<and> m (id_user b) = Some (Some (id_user c))
                    \<and> m (id_user c) = Some (Some (id_user a))
                  \<or> m (id_user a) = Some (Some (id_user c)) \<and> m (id_user c) = Some (Some (id_user b))
                    \<and> m (id_user b) = Some (Some (id_user a))" if ok: "?gen = Inr m" for m
  proof -
    from generate_success [OF ok] obtain sh s0 where m: "m = fill_result users sh 0 Map.empty"
      and v: "validate_from users sh 0" and sh: "sh = fst (shuffle engine rs ?ids s0)" by blast
    from shuffle_mset [OF p] sh have ms: "mset sh = mset ?ids" by simp
    from v have fx: "\<forall>j < 3. sh ! j \<noteq> ?ids ! j" unfolding three_valid_iff [OF u n ms] .
    from ms u have ms3: "mset sh = {#id_user a, id_user b, id_user c#}" by simp
    from d u have d3: "distinct [id_user a, id_user b, id_user c]" by simp
    from fx have "sh ! 0 \<noteq> ?ids ! 0" "sh ! 1 \<noteq> ?ids ! 1" "sh ! 2 \<noteq> ?ids ! 2" by simp_all
    with u have "sh ! 0 \<noteq> id_user a" "sh ! 1 \<noteq> id_user b" "sh ! 2 \<noteq> id_user c" by simp_all
    from three_derangement [OF ms3 d3 this]
    have shape: "sh = [id_user b, id_user c, id_user a] \<or> sh = [id_user c, id_user a, id_user b]" .
    then have l3: "length sh = 3" by auto
    have at: "m (id_user (users ! j)) = Some (Some (sh ! j))" if "j < 3" for j
      using fill_result_at [OF d, of 0 j sh Map.empty] that u l3 by (simp add: m js_index_def)
    from at [of 0] at [of 1] at [of 2] u
    have "m (id_user a) = Some (Some (sh ! 0))" "m (id_user b) = Some (Some (sh ! 1))"
      "m (id_user c) = Some (Some (sh ! 2))" by simp_all
    with shape show ?thesis by auto
  qed
  show ?thesis
  proof (intro conjI impI allI)
    fix m assume "?gen = Inr m"
    then show "m (id_user a) = Some (Some (id_user b)) \<and> m (id_user b) = Some (Some (id_user c))
                  \<and> m (id_user c) = Some (Some (id_user a))
               \<or> m (id_user a) = Some (Some (id_user c)) \<and> m (id_user c) = Some (Some (id_user b))
                  \<and> m (id_user b) = Some (Some (id_user a))" by (rule cyc)
  next
    assume "\<exists>k < 999. \<forall>j < 3. fst (nth_shuffle engine rs ?ids s k) ! j \<noteq> ?ids ! j"
    with iff show "\<exists>m. ?gen = Inr m" by blast
  next
    assume none: "\<not> (\<exists>k < 1000. \<forall>j < 3. fst (nth_shuffle engine rs ?ids s k) ! j \<noteq> ?ids ! j)"
    have "\<not> (\<exists>k < 999. \<forall>j < 3. fst (nth_shuffle engine rs ?ids s k) ! j \<noteq> ?ids ! j)"
    proof
      assume "\<exists>k < 999. \<forall>j < 3. fst (nth_shuffle engine rs ?ids s k) ! j \<noteq> ?ids ! j"
      then obtain k where "k < 999" "\<forall>j < 3. fst (nth_shuffle engine rs ?ids s k) ! j \<noteq> ?ids ! j" by blast
      then have "k < 1000 \<and> (\<forall>j < 3. fst (nth_shuffle engine rs ?ids s k) ! j \<noteq> ?ids ! j)" by simp
      with none show False by blast
    qed
    with iff have "\<not> (\<exists>m. ?gen = Inr m)" by simp
    then show "?gen = Inl ImpossibleToGenerate" by (rule generate_error_cases [OF len])
  qed
qed

theorem three_participants_cycle_or_failure_witness:
  "distinct (map id_user trio)
   \<and> fst (nth_shuffle insertion_sort one_low_then_high (map id_user trio) 0 0) = [''B'', ''C'', ''A'']
   \<and> (\<exists>m. fst (generateAssignments insertion_sort one_low_then_high trio 0) = Inr m
         \<and> (m ''A'' = Some (Some ''B'') \<and> m ''B'' = Some (Some ''C'') \<and> m ''C'' = Some (Some ''A'')
            \<or> m ''A'' = Some (Some ''C'') \<and> m ''C'' = Some (Some ''B'') \<and> m ''B'' = Some (Some ''A'')))"
proof -
  have d: "distinct (map id_user trio)" by simp
  have n: "\<forall>u \<in> set trio. id_user u \<noteq> [] \<and> set (excludedUserIds u) \<subseteq> {id_user u}" by simp
  have s: "fst (nth_shuffle insertion_sort one_low_then_high (map id_user trio) 0 0) = [''B'', ''C'', ''A'']"
    by (simp add: shuffle_def insertion_sort_def random_comparator_def math_random_def)
  have "\<forall>j < 3. [''B'', ''C'', ''A''] ! j \<noteq> map id_user trio ! j"
    by (simp add: numeral_3_eq_3 less_Suc_eq)
  with s have "\<forall>j < 3. fst (nth_shuffle insertion_sort one_low_then_high (map id_user trio) 0 0) ! j \<noteq> map id_user trio ! j"
    by (simp only:)
  then have k: "\<exists>k < 999. \<forall>j < 3. fst (nth_shuffle insertion_sort one_low_then_high (map id_user trio) 0 k) ! j \<noteq> map id_user trio ! j"
    by (intro exI [of _ 0] conjI) simp_all
  note r = three_participants_cycle_or_failure [OF refl d n permuting_insertion_sort, of one_low_then_high 0]
  from r [THEN conjunct2, THEN conjunct1, THEN mp, OF k] obtain m where
    m: "fst (generateAssignments insertion_sort one_low_then_high trio 0) = Inr m" by blast
  from r [THEN conjunct1, THEN spec, THEN mp, OF m]
  have "m ''A'' = Some (Some ''B'') \<and> m ''B'' = Some (Some ''C'') \<and> m ''C'' = Some (Some ''A'')
            \<or> m ''A'' = Some (Some ''C'') \<and> m ''C'' = Some (Some ''B'') \<and> m ''B'' = Some (Some ''A'')"
    by simp
  with m have c: "\<exists>m. fst (generateAssignments insertion_sort one_low_then_high trio 0) = Inr m
         \<and> (m ''A'' = Some (Some ''B'') \<and> m ''B'' = Some (Some ''C'') \<and> m ''C'' = Some (Some ''A'')
            \<or> m ''A'' = Some (Some ''C'') \<and> m ''C'' = Some (Some ''B'') \<and> m ''B'' = Some (Some ''A''))"
    by blast
  from d s c show ?thesis by (intro conjI)
qed

text \<open>
  A random source that makes every comparison answer "keep the order" leaves each
  participant assigned to themselves in all 1000 attempts.
\<close>

theorem three_participants_can_fail:
  "fst (generateAssignments insertion_sort always_low trio 0) = Inl ImpossibleToGenerate"
proof (rule generate_all_fail)
  show "2 \<le> length trio" by simp
  have sh: "fst (shuffle insertion_sort always_low (map id_user trio) s) = [''A'', ''B'', ''C'']" for s
    by (simp add: shuffle_def insertion_sort_def random_comparator_def math_random_def)
  have "\<not> validate_from trio [''A'', ''B'', ''C''] 0"
    by (simp add: validate_from.simps js_index_def)
  with sh show "\<forall>s. \<not> validate_from trio (fst (shuffle insertion_sort always_low (map id_user trio) s)) 0"
    by simp
qed

text \<open>
  C10. If a participant's identifier is the empty string and there are at least two
  participants, the call always throws "Impossible to generate valid assignments": every
  shuffle puts the empty identifier at some position, where \<^verbatim>\<open>!assignedId\<close> rejects it.
\<close>

theorem empty_identifier_fails:
  assumes len: "2 \<le> length users"
    and e: "\<exists>u \<in> set users. id_user u = []"
    and p: "permuting engine"
  shows "fst (generateAssignments engine rs users s) = Inl ImpossibleToGenerate"
proof (rule generate_all_fail [OF len], intro allI notI)
  fix s0
  let ?sh = "fst (shuffle engine rs (map id_user users) s0)"
  assume v: "validate_from users ?sh 0"
  from shuffle_mset [OF p] have ms: "mset ?sh = mset (map id_user users)" .
  then have st: "set ?sh = set (map id_user users)" by (rule mset_eq_setD)
  from ms have "size (mset ?sh) = size (mset (map id_user users))" by (simp only:)
  then have ln: "length ?sh = length users" by simp
  from e st have "[] \<in> set ?sh" by force
  then obtain j where j: "j < length ?sh" "?sh ! j = []" by (auto simp: in_set_conv_nth)
  from v j ln have "\<exists>a. js_index ?sh j = Some a \<and> a \<noteq> []"
    unfolding validate_from_iff by auto
  with j show False by (simp add: js_index_def)
qed

theorem empty_identifier_fails_witness:
  "2 \<le> length blank_trio
   \<and> fst (generateAssignments insertion_sort one_low_then_high blank_trio 0) = Inl ImpossibleToGenerate"
proof -
  have l: "2 \<le> length blank_trio" by simp
  have e: "\<exists>u \<in> set blank_trio. id_user u = []" by simp
  from l empty_identifier_fails [OF l e permuting_insertion_sort, of one_low_then_high 0]
  show ?thesis by (intro conjI)
qed

section \<open>Determinism and resources\<close>

text \<open>
  C8. The result is determined by the identifiers, the exclusion lists and the random
  values the call sees: two calls with the same identifiers and exclusion lists (names
  and ready flags may differ), made at different moments \<open>s\<close> and \<open>s'\<close> of generators
  that return the same values from there on, return the same Assignment or the same
  error, and consume the same number \<open>d\<close> of random values.
\<close>

theorem deterministic_given_random_values:
  assumes r: "\<forall>i. rs (s + i) = rs' (s' + i)"
    and i: "map id_user users = map id_user users'"
    and x: "map excludedUserIds users = map excludedUserIds users'"
  shows "\<exists>result d. generateAssignments engine rs users s = (result, s + d)
                 \<and> generateAssignments engine rs' users' s' = (result, s' + d)"
proof -
  from i have len: "length users = length users'" by (rule map_eq_imp_length_eq)
  show ?thesis
  proof (cases "length users < 2")
    case True
    with len have "generateAssignments engine rs users s = (Inl NotEnoughUsers, s + 0)"
      "generateAssignments engine rs' users' s' = (Inl NotEnoughUsers, s' + 0)"
      by (simp_all add: generateAssignments_def)
    then show ?thesis by blast
  next
    case False
    from attempt_loop_same_values [OF i x r, of engine "map id_user users" 0 "[]"] obtain n sh d where
      1: "attempt_loop engine rs users (map id_user users) 0 [] s = (n, sh, s + d)" and
      2: "attempt_loop engine rs' users' (map id_user users') 0 [] s' = (n, sh, s' + d)"
      using i by auto
    have f: "fill_result users sh 0 Map.empty = fill_result users' sh 0 Map.empty"
      by (rule fill_result_cong [OF i])
    define result where "result = (if n \<ge> 1000 then Inl ImpossibleToGenerate else Inr (fill_result users sh 0 Map.empty))"
    have "generateAssignments engine rs users s = (result, s + d)"
      using False 1 by (simp add: generateAssignments_def Let_def result_def)
    moreover have "generateAssignments engine rs' users' s' = (result, s' + d)"
      using False len 2 f by (simp add: generateAssignments_def Let_def result_def)
    ultimately show ?thesis by blast
  qed
qed

theorem deterministic_given_random_values_witness:
  "map id_user trio = map id_user renamed_trio
   \<and> map excludedUserIds trio = map excludedUserIds renamed_trio
   \<and> (\<exists>result d. generateAssignments insertion_sort one_low_then_high trio 0 = (result, 0 + d)
         \<and> generateAssignments insertion_sort low_through_5_then_high renamed_trio 5 = (result, 5 + d))"
proof -
  have r: "\<forall>i. one_low_then_high (0 + i) = low_through_5_then_high (5 + i)" by simp
  have i: "map id_user trio = map id_user renamed_trio" by simp
  have x: "map excludedUserIds trio = map excludedUserIds renamed_trio" by simp
  from i x deterministic_given_random_values [OF r i x, of insertion_sort]
  show ?thesis by (intro conjI)
qed




end
